theory Spec2Isabelle
  imports Main "HOL-Library.Monad_Syntax"
begin

section \<open>The Fart stemmer (fartstemmer.py) as HOL functions\<close>

text \<open>
  A word is a Python string, modelled as a \<^typ>\<open>string\<close>. Every function of the
  class \<open>FartStemmer\<close> that indexes a string may raise \<open>IndexError\<close>; such a
  function returns an option here, and \<open>None\<close> is the raised exception. Indices and
  measures are Python integers, modelled as \<^typ>\<open>int\<close>. A character is a
  \<^typ>\<open>char\<close> and the length of a word is its number of characters. The stemmer
  only compares characters with ASCII letters, so every other character acts as a
  non-ASCII character of the Python string does. \<open>str.lower\<close> belongs to Python, not
  to this module: \<open>fart\<close> takes it as a parameter.
\<close>

subsection \<open>Python string primitives\<close>

definition at :: "string \<Rightarrow> int \<Rightarrow> char option" where
  \<comment> \<open>\<open>word[i]\<close>: a negative index counts from the end, an index out of range raises.\<close>
  "at word i =
     (let n = int (length word); k = (if i < 0 then n + i else i)
      in if 0 \<le> k \<and> k < n then Some (word ! nat k) else None)"

definition chop :: "nat \<Rightarrow> string \<Rightarrow> string" where
  \<comment> \<open>\<open>word[:-k]\<close> for a literal \<open>k > 0\<close>: the word without its last \<open>k\<close> characters.\<close>
  "chop k word = take (length word - k) word"

definition endswith :: "string \<Rightarrow> string \<Rightarrow> bool" where
  \<comment> \<open>\<open>word.endswith(s)\<close>\<close>
  "endswith word s =
     (length s \<le> length word \<and> drop (length word - length s) word = s)"

definition slice :: "string \<Rightarrow> int \<Rightarrow> int \<Rightarrow> string" where
  \<comment> \<open>\<open>p[a:b]\<close>: both bounds are clamped to the string, negative ones count from the end.\<close>
  "slice p a b =
     (let n = int (length p);
          lo = (if a < 0 then max (a + n) 0 else min a n);
          hi = (if b < 0 then max (b + n) 0 else min b n)
      in take (nat (hi - lo)) (drop (nat lo) p))"

subsection \<open>The constructor: the pool of irregular forms\<close>

definition irregular_forms :: "(string \<times> string list) list" where
  "irregular_forms =
     [(''sky'', [''sky'', ''skies'']),
      (''die'', [''dying'']),
      (''lie'', [''lying'']),
      (''tie'', [''tying'']),
      (''news'', [''news'']),
      (''inning'', [''innings'', ''inning'']),
      (''outing'', [''outings'', ''outing'']),
      (''canning'', [''cannings'', ''canning'']),
      (''howe'', [''howe'']),
      (''proceed'', [''proceed'']),
      (''exceed'', [''exceed'']),
      (''succeed'', [''succeed''])]"

definition pool :: "string \<rightharpoonup> string" where
  \<comment> \<open>the two nested loops of \<open>__init__\<close>: \<open>self.pool[val] = key\<close>\<close>
  "pool =
     fold (\<lambda>(key, vals) p. fold (\<lambda>val p. p(val \<mapsto> key)) vals p)
       irregular_forms Map.empty"

definition vowels :: "char set" where
  "vowels = {CHR ''a'', CHR ''e'', CHR ''i'', CHR ''o'', CHR ''u''}"

subsection \<open>The classifier and the measure\<close>

function cons :: "string \<Rightarrow> int \<Rightarrow> bool option" where
  "cons word i =
     (case at word i of
        None \<Rightarrow> None
      | Some c \<Rightarrow>
          if c \<in> vowels then Some False
          else if c = CHR ''y'' then
            (if i = 0 then Some True else map_option Not (cons word (i - 1)))
          else Some True)"
  by pat_completeness auto
termination
  by (relation "measure (\<lambda>(word, i). nat (i + int (length word) + 1))")
     (auto simp: at_def Let_def split: if_splits)

declare cons.simps [simp del]

text \<open>
  The three loops of \<open>_m\<close>, one function each, with the counters \<open>i\<close> and \<open>n\<close> as
  arguments: \<open>m_lead\<close> is the first loop (the leading consonants), \<open>m_vow\<close> the first
  inner loop (a run of vowels) and \<open>m_con\<close> the second inner loop (a run of
  consonants). A \<open>break\<close> is followed by \<open>i = i + 1\<close>, so both branches go on at
  \<open>i + 1\<close>.
\<close>

function m_lead :: "string \<Rightarrow> int \<Rightarrow> int \<Rightarrow> int \<Rightarrow> int option"
  and m_vow :: "string \<Rightarrow> int \<Rightarrow> int \<Rightarrow> int \<Rightarrow> int option"
  and m_con :: "string \<Rightarrow> int \<Rightarrow> int \<Rightarrow> int \<Rightarrow> int option" where
  "m_lead word j i n =
     (if i > j then Some n
      else case cons word i of
        None \<Rightarrow> None
      | Some c \<Rightarrow> if \<not> c then m_vow word j (i + 1) n else m_lead word j (i + 1) n)"
| "m_vow word j i n =
     (if i > j then Some n
      else case cons word i of
        None \<Rightarrow> None
      | Some c \<Rightarrow> if c then m_con word j (i + 1) (n + 1) else m_vow word j (i + 1) n)"
| "m_con word j i n =
     (if i > j then Some n
      else case cons word i of
        None \<Rightarrow> None
      | Some c \<Rightarrow> if \<not> c then m_vow word j (i + 1) n else m_con word j (i + 1) n)"
  by pat_completeness auto
termination
  by (relation "measure (\<lambda>x. case x of
         Inl (word, j, i, n) \<Rightarrow> nat (j + 1 - i)
       | Inr (Inl (word, j, i, n)) \<Rightarrow> nat (j + 1 - i)
       | Inr (Inr (word, j, i, n)) \<Rightarrow> nat (j + 1 - i))")
     auto

declare m_lead.simps [simp del] m_vow.simps [simp del] m_con.simps [simp del]

definition m :: "string \<Rightarrow> int \<Rightarrow> int option" where
  "m word j = m_lead word j 0 0"

subsection \<open>The shape predicates\<close>

fun vowelinstem_loop :: "string \<Rightarrow> nat list \<Rightarrow> bool option" where
  "vowelinstem_loop stem [] = Some False"
| "vowelinstem_loop stem (i # rest) =
     (case cons stem (int i) of
        None \<Rightarrow> None
      | Some c \<Rightarrow> if \<not> c then Some True else vowelinstem_loop stem rest)"

definition vowelinstem :: "string \<Rightarrow> bool option" where
  \<comment> \<open>\<open>for i in range(len(stem))\<close>\<close>
  "vowelinstem stem = vowelinstem_loop stem [0..<length stem]"

definition doublec :: "string \<Rightarrow> bool option" where
  "doublec word =
     (if length word < 2 then Some False
      else do {
        a \<leftarrow> at word (- 1);
        b \<leftarrow> at word (- 2);
        if a \<noteq> b then Some False else cons word (int (length word) - 1)
      })"

definition cvc :: "string \<Rightarrow> int \<Rightarrow> bool option" where
  "cvc word i =
     (if i = 0 then Some False
      else if i = 1 then do {
        c0 \<leftarrow> cons word 0;
        if \<not> c0 then cons word 1 else Some False
      }
      else do {
        ci \<leftarrow> cons word i;
        if \<not> ci then Some False
        else do {
          cj \<leftarrow> cons word (i - 1);
          if cj then Some False
          else do {
            ck \<leftarrow> cons word (i - 2);
            if \<not> ck then Some False
            else do {
              ch \<leftarrow> at word i;
              Some (\<not> (ch = CHR ''w'' \<or> ch = CHR ''x'' \<or> ch = CHR ''y''))
            }
          }
        }
      })"

subsection \<open>Step 1\<close>

text \<open>
  \<open>_step1ab\<close> is three blocks in sequence: the plural block (\<open>if word[-1] == 's'\<close>),
  the \<open>-ed\<close>/\<open>-ing\<close> block, which also sets the flag \<open>ed_or_ing_trimmed\<close>, and the
  block guarded by that flag.
\<close>

definition step1ab_plural :: "string \<Rightarrow> string option" where
  "step1ab_plural word = do {
     c \<leftarrow> at word (- 1);
     if c = CHR ''s'' then
       if endswith word ''sses'' then Some (chop 2 word)
       else if endswith word ''ies'' then
         (if length word = 4 then Some (chop 1 word) else Some (chop 2 word))
       else do {
         d \<leftarrow> at word (- 2);
         Some (if d \<noteq> CHR ''s'' then chop 1 word else word)
       }
     else Some word
   }"

definition step1ab_ed_ing :: "string \<Rightarrow> (string \<times> bool) option" where
  "step1ab_ed_ing word =
     (if endswith word ''ied'' then
        Some (if length word = 4 then chop 1 word else chop 2 word, False)
      else if endswith word ''eed'' then do {
        a \<leftarrow> m word (int (length word) - 4);
        Some (if a > 0 then chop 1 word else word, False)
      }
      else do {
        ed \<leftarrow> (if endswith word ''ed'' then vowelinstem (chop 2 word) else Some False);
        if ed then Some (chop 2 word, True)
        else do {
          ing \<leftarrow> (if endswith word ''ing'' then vowelinstem (chop 3 word) else Some False);
          if ing then Some (chop 3 word, True) else Some (word, False)
        }
      })"

definition step1ab_restore :: "string \<Rightarrow> string option" where
  "step1ab_restore word =
     (if endswith word ''at'' \<or> endswith word ''bl'' \<or> endswith word ''iz'' then
        Some (word @ ''e'')
      else do {
        d \<leftarrow> doublec word;
        if d then do {
          c \<leftarrow> at word (- 1);
          Some (if c \<notin> {CHR ''l'', CHR ''s'', CHR ''z''} then chop 1 word else word)
        }
        else do {
          a \<leftarrow> m word (int (length word) - 1);
          if a = 1 then do {
            c \<leftarrow> cvc word (int (length word) - 1);
            Some (if c then word @ ''e'' else word)
          }
          else Some word
        }
      })"

definition step1ab :: "string \<Rightarrow> string option" where
  "step1ab word = do {
     word \<leftarrow> step1ab_plural word;
     (word, ed_or_ing_trimmed) \<leftarrow> step1ab_ed_ing word;
     if ed_or_ing_trimmed then step1ab_restore word else Some word
   }"

definition step1c :: "string \<Rightarrow> string option" where
  "step1c word = do {
     c \<leftarrow> at word (- 1);
     if c = CHR ''y'' \<and> length word > 2 then do {
       k \<leftarrow> cons word (int (length word) - 2);
       Some (if k then chop 1 word @ ''i'' else word)
     }
     else Some word
   }"

subsection \<open>Steps 2 to 5\<close>

definition gated :: "(int \<Rightarrow> bool) \<Rightarrow> string \<Rightarrow> int \<Rightarrow> string \<Rightarrow> string option" where
  \<comment> \<open>\<open>return r if P(self._m(word, j)) else word\<close>, where \<open>P\<close> is \<open>> 0\<close>, \<open>> 1\<close> or,
      where the source tests the measure itself, \<open>\<noteq> 0\<close>\<close>
  "gated P word j r = do { a \<leftarrow> m word j; Some (if P a then r else word) }"

abbreviation len :: "string \<Rightarrow> int" where
  "len word \<equiv> int (length word)"

function step2 :: "string \<Rightarrow> string option" where
  "step2 word =
     (if length word \<le> 1 then Some word
      else do {
        ch \<leftarrow> at word (- 2);
        if ch = CHR ''a'' then
          if endswith word ''ational'' then
            gated (\<lambda>a. a > 0) word (len word - 8) (chop 7 word @ ''ate'')
          else if endswith word ''tional'' then
            gated (\<lambda>a. a > 0) word (len word - 7) (chop 2 word)
          else Some word
        else if ch = CHR ''c'' then
          if endswith word ''enci'' then
            gated (\<lambda>a. a > 0) word (len word - 5) (chop 4 word @ ''ence'')
          else if endswith word ''anci'' then
            gated (\<lambda>a. a > 0) word (len word - 5) (chop 4 word @ ''ance'')
          else Some word
        else if ch = CHR ''e'' then
          if endswith word ''izer'' then
            gated (\<lambda>a. a > 0) word (len word - 5) (chop 1 word)
          else Some word
        else if ch = CHR ''l'' then
          if endswith word ''bli'' then
            gated (\<lambda>a. a > 0) word (len word - 4) (chop 3 word @ ''ble'')
          else if endswith word ''alli'' then do {
            a \<leftarrow> m word (len word - 5);
            if a > 0 then step2 (chop 2 word) else Some word
          }
          else if endswith word ''fulli'' then
            gated (\<lambda>a. a \<noteq> 0) word (len word - 6) (chop 2 word)
          else if endswith word ''entli'' then
            gated (\<lambda>a. a \<noteq> 0) word (len word - 6) (chop 2 word)
          else if endswith word ''eli'' then
            gated (\<lambda>a. a \<noteq> 0) word (len word - 4) (chop 2 word)
          else if endswith word ''ousli'' then
            gated (\<lambda>a. a \<noteq> 0) word (len word - 6) (chop 2 word)
          else Some word
        else if ch = CHR ''o'' then
          if endswith word ''ization'' then
            gated (\<lambda>a. a \<noteq> 0) word (len word - 8) (chop 7 word @ ''ize'')
          else if endswith word ''ation'' then
            gated (\<lambda>a. a \<noteq> 0) word (len word - 6) (chop 5 word @ ''ate'')
          else if endswith word ''ator'' then
            gated (\<lambda>a. a \<noteq> 0) word (len word - 5) (chop 4 word @ ''ate'')
          else Some word
        else if ch = CHR ''s'' then
          if endswith word ''alism'' then
            gated (\<lambda>a. a \<noteq> 0) word (len word - 6) (chop 3 word)
          else if endswith word ''ness'' then
            if endswith word ''iveness'' then
              gated (\<lambda>a. a \<noteq> 0) word (len word - 8) (chop 4 word)
            else if endswith word ''fulness'' then
              gated (\<lambda>a. a \<noteq> 0) word (len word - 8) (chop 4 word)
            else if endswith word ''ousness'' then
              gated (\<lambda>a. a \<noteq> 0) word (len word - 8) (chop 4 word)
            else Some word
          else Some word
        else if ch = CHR ''t'' then
          if endswith word ''aliti'' then
            gated (\<lambda>a. a \<noteq> 0) word (len word - 6) (chop 3 word)
          else if endswith word ''iviti'' then
            gated (\<lambda>a. a \<noteq> 0) word (len word - 6) (chop 5 word @ ''ive'')
          else if endswith word ''biliti'' then
            gated (\<lambda>a. a \<noteq> 0) word (len word - 7) (chop 6 word @ ''ble'')
          else Some word
        else if ch = CHR ''g'' then
          if endswith word ''logi'' then
            gated (\<lambda>a. a \<noteq> 0) word (len word - 4) (chop 1 word)
          else Some word
        else Some word
      })"
  by pat_completeness auto
termination
  by (relation "measure length") (auto simp: chop_def)

declare step2.simps [simp del]

definition step3 :: "string \<Rightarrow> string option" where
  "step3 word = do {
     ch \<leftarrow> at word (- 1);
     if ch = CHR ''e'' then
       if endswith word ''icate'' then
         gated (\<lambda>a. a \<noteq> 0) word (len word - 6) (chop 3 word)
       else if endswith word ''ative'' then
         gated (\<lambda>a. a \<noteq> 0) word (len word - 6) (chop 5 word)
       else if endswith word ''alize'' then
         gated (\<lambda>a. a \<noteq> 0) word (len word - 6) (chop 3 word)
       else Some word
     else if ch = CHR ''i'' then
       if endswith word ''iciti'' then
         gated (\<lambda>a. a \<noteq> 0) word (len word - 6) (chop 3 word)
       else Some word
     else if ch = CHR ''l'' then
       if endswith word ''ical'' then
         gated (\<lambda>a. a \<noteq> 0) word (len word - 5) (chop 2 word)
       else if endswith word ''ful'' then
         gated (\<lambda>a. a \<noteq> 0) word (len word - 4) (chop 3 word)
       else Some word
     else if ch = CHR ''s'' then
       if endswith word ''ness'' then
         gated (\<lambda>a. a \<noteq> 0) word (len word - 5) (chop 4 word)
       else Some word
     else Some word
   }"

definition step4 :: "string \<Rightarrow> string option" where
  "step4 word =
     (if length word \<le> 1 then Some word
      else do {
        ch \<leftarrow> at word (- 2);
        if ch = CHR ''a'' then
          if endswith word ''al'' then
            gated (\<lambda>a. a > 1) word (len word - 3) (chop 2 word)
          else Some word
        else if ch = CHR ''c'' then
          if endswith word ''ance'' then
            gated (\<lambda>a. a > 1) word (len word - 5) (chop 4 word)
          else if endswith word ''ence'' then
            gated (\<lambda>a. a > 1) word (len word - 5) (chop 4 word)
          else Some word
        else if ch = CHR ''e'' then
          if endswith word ''er'' then
            gated (\<lambda>a. a > 1) word (len word - 3) (chop 2 word)
          else Some word
        else if ch = CHR ''i'' then
          if endswith word ''ic'' then
            gated (\<lambda>a. a > 1) word (len word - 3) (chop 2 word)
          else Some word
        else if ch = CHR ''l'' then
          if endswith word ''able'' then
            gated (\<lambda>a. a > 1) word (len word - 5) (chop 4 word)
          else if endswith word ''ible'' then
            gated (\<lambda>a. a > 1) word (len word - 5) (chop 4 word)
          else Some word
        else if ch = CHR ''n'' then
          if endswith word ''ant'' then
            gated (\<lambda>a. a > 1) word (len word - 4) (chop 3 word)
          else if endswith word ''ement'' then
            gated (\<lambda>a. a > 1) word (len word - 6) (chop 5 word)
          else if endswith word ''ment'' then
            gated (\<lambda>a. a > 1) word (len word - 5) (chop 4 word)
          else if endswith word ''ent'' then
            gated (\<lambda>a. a > 1) word (len word - 4) (chop 3 word)
          else Some word
        else if ch = CHR ''o'' then
          if endswith word ''sion'' \<or> endswith word ''tion'' then
            gated (\<lambda>a. a > 1) word (len word - 4) (chop 3 word)
          else if endswith word ''ou'' then
            gated (\<lambda>a. a > 1) word (len word - 3) (chop 2 word)
          else Some word
        else if ch = CHR ''s'' then
          if endswith word ''ism'' then
            gated (\<lambda>a. a > 1) word (len word - 4) (chop 3 word)
          else Some word
        else if ch = CHR ''t'' then
          if endswith word ''ate'' then
            gated (\<lambda>a. a > 1) word (len word - 4) (chop 3 word)
          else if endswith word ''iti'' then
            gated (\<lambda>a. a > 1) word (len word - 4) (chop 3 word)
          else Some word
        else if ch = CHR ''u'' then
          if endswith word ''ous'' then
            gated (\<lambda>a. a > 1) word (len word - 4) (chop 3 word)
          else Some word
        else if ch = CHR ''v'' then
          if endswith word ''ive'' then
            gated (\<lambda>a. a > 1) word (len word - 4) (chop 3 word)
          else Some word
        else if ch = CHR ''z'' then
          if endswith word ''ize'' then
            gated (\<lambda>a. a > 1) word (len word - 4) (chop 3 word)
          else Some word
        else Some word
      })"

definition step5_e :: "string \<Rightarrow> string option" where
  \<comment> \<open>the first \<open>if\<close> of \<open>_step5\<close>\<close>
  "step5_e word = do {
     c \<leftarrow> at word (- 1);
     if c = CHR ''e'' then do {
       a \<leftarrow> m word (len word - 1);
       if a > 1 then Some (chop 1 word)
       else if a = 1 then do {
         k \<leftarrow> cvc word (len word - 2);
         Some (if \<not> k then chop 1 word else word)
       }
       else Some word
     }
     else Some word
   }"

definition step5_ll :: "string \<Rightarrow> string option" where
  \<comment> \<open>the second \<open>if\<close> of \<open>_step5\<close>\<close>
  "step5_ll word =
     (if endswith word ''ll'' then do {
        a \<leftarrow> m word (len word - 1);
        Some (if a > 1 then chop 1 word else word)
      }
      else Some word)"

definition step5 :: "string \<Rightarrow> string option" where
  "step5 word = do { word \<leftarrow> step5_e word; step5_ll word }"

subsection \<open>The engine and the wrapper\<close>

definition stem_word :: "string \<Rightarrow> int \<Rightarrow> int option \<Rightarrow> string option" where
  \<comment> \<open>\<open>stem_word(p, i=0, j=None)\<close>\<close>
  "stem_word p i j =
     (let word = (if j = None \<and> i = 0 then p
                  else slice p i ((case j of None \<Rightarrow> len p - 1 | Some j' \<Rightarrow> j') + 1))
      in case pool word of
           Some s \<Rightarrow> Some s
         | None \<Rightarrow>
             if length word \<le> 2 then Some word
             else do {
               word \<leftarrow> step1ab word;
               word \<leftarrow> step1c word;
               word \<leftarrow> step2 word;
               word \<leftarrow> step3 word;
               word \<leftarrow> step4 word;
               step5 word
             })"

definition stem :: "string \<Rightarrow> string option" where
  \<comment> \<open>the call \<open>stem_word(word)\<close>, both optional arguments at their defaults\<close>
  "stem word = stem_word word 0 None"

definition fart :: "(string \<Rightarrow> string) \<Rightarrow> string \<Rightarrow> string option" where
  \<comment> \<open>the method \<open>fart(self, word)\<close>; \<open>lower\<close> is \<open>str.lower\<close>\<close>
  "fart lower word = do {
     s \<leftarrow> stem_word (lower word) 0 (Some (len word - 1));
     Some (if s \<noteq> lower word then s @ ''fart'' else word)
   }"

definition lower_dotted :: "string \<Rightarrow> string" where
  \<comment> \<open>\<open>str.lower\<close> of Python 3 on a token whose only capital letter is U+0130, the
      dotted capital I, which becomes \<open>i\<close> followed by U+0307; here \<open>CHR 0xDD\<close> stands
      for U+0130 and \<open>CHR 0xCC\<close> for U+0307\<close>
  "lower_dotted word =
     concat (map (\<lambda>c. if c = CHR 0xDD then [CHR ''i'', CHR 0xCC] else [c]) word)"

subsection \<open>The measure as the specification words it\<close>

definition vc_at :: "string \<Rightarrow> nat \<Rightarrow> bool" where
  \<comment> \<open>a VC boundary: position \<open>k\<close> is a vowel and position \<open>k + 1\<close> a consonant\<close>
  "vc_at word k = (cons word (int k) = Some False \<and> cons word (int k + 1) = Some True)"

definition vc_boundaries :: "string \<Rightarrow> nat \<Rightarrow> nat" where
  \<comment> \<open>the number of VC boundaries inside \<open>word[0..j]\<close>: the \<open>m\<close> of the decomposition
      \<open>[C](VC)^m[V]\<close> of that prefix\<close>
  "vc_boundaries word j = length (filter (vc_at word) [0..<j])"

definition classes :: "string \<Rightarrow> nat \<Rightarrow> bool option list" where
  \<comment> \<open>the classes of the positions \<open>0\<close> to \<open>j\<close>: \<open>Some True\<close> is Consonant, \<open>Some False\<close>
      is Vowel\<close>
  "classes word j = map (\<lambda>k. cons word (int k)) [0..<Suc j]"

definition canonical :: "bool \<Rightarrow> nat \<Rightarrow> bool \<Rightarrow> bool option list" where
  \<comment> \<open>the sequence of runs \<open>[C](VC)^a[V]\<close>, with the leading \<open>C\<close> present when \<open>c\<close> holds
      and the final \<open>V\<close> when \<open>v\<close> holds\<close>
  "canonical c a v =
     (if c then [Some True] else []) @ concat (replicate a [Some False, Some True])
       @ (if v then [Some False] else [])"

subsection \<open>A result that is defined, not empty and no longer than the input\<close>

definition shrinks :: "string \<Rightarrow> string option \<Rightarrow> bool" where
  "shrinks w r = (case r of None \<Rightarrow> False | Some x \<Rightarrow> x \<noteq> [] \<and> length x \<le> length w)"

section \<open>Indexing and the classifier\<close>

lemma at_nonneg: "0 \<le> i \<Longrightarrow> i < len w \<Longrightarrow> at w i = Some (w ! nat i)"
  by (simp add: at_def)

lemma cons_total_nat: "k < length w \<Longrightarrow> \<exists>b. cons w (int k) = Some b"
proof (induction k)
  case 0
  then show ?case by (subst cons.simps) (auto simp: at_nonneg)
next
  case (Suc k)
  then obtain b where "cons w (int k) = Some b" by auto
  with Suc.prems show ?case by (subst cons.simps) (auto simp: at_nonneg)
qed

lemma cons_total: "0 \<le> i \<Longrightarrow> i < len w \<Longrightarrow> \<exists>b. cons w i = Some b"
  using cons_total_nat [of "nat i" w] by simp

text \<open>
  Claim C1, as the code has it. A \<open>y\<close> at index \<open>i\<close> of a word is a vowel
  (\<open>cons\<close> is false) exactly when \<open>i > 0\<close> and the character before it is a
  consonant; a \<open>y\<close> at index 0 is a consonant.
\<close>

theorem cons_y:
  assumes "0 \<le> i" and "i < len w" and "w ! nat i = CHR ''y''"
  shows "cons w i = Some (\<not> (0 < i \<and> cons w (i - 1) = Some True))"
proof (cases "i = 0")
  case True
  with assms show ?thesis by (subst cons.simps) (simp add: at_nonneg vowels_def)
next
  case False
  with assms obtain b where b: "cons w (i - 1) = Some b"
    using cons_total [of "i - 1" w] by auto
  from assms have "at w i = Some CHR ''y''" by (simp add: at_nonneg)
  with False b assms(1) show ?thesis
    by (subst cons.simps) (simp add: vowels_def)
qed

theorem cons_y_witness:
  "(0::int) \<le> 1 \<and> 1 < len ''by'' \<and> ''by'' ! nat 1 = CHR ''y'' \<and> cons ''by'' 1 = Some False
    \<and> cons ''by'' 1 = Some (\<not> (0 < (1::int) \<and> cons ''by'' (1 - 1) = Some True))"
  using cons_y [of 1 "''by''"] by code_simp

text \<open>
  The claim as the specification states it makes a \<open>y\<close> at index 0 a vowel. The
  code returns \<open>True\<close> (consonant) there.
\<close>

theorem cons_y_counterexample:
  "''yes'' ! nat 0 = CHR ''y'' \<and> cons ''yes'' 0 = Some True \<and> cons ''yes'' 0 \<noteq> Some False"
  by code_simp

section \<open>Concrete scenarios\<close>

text \<open>
  Claim C4, as the code has it. \<open>stem("ties")\<close> is \<open>"tie"\<close>: the word has length 4,
  so the \<open>ies\<close> rule of step 1ab drops one character only, and no later step
  changes \<open>tie\<close>.
\<close>

theorem stem_ties: "stem ''ties'' = Some ''tie''"
  by code_simp

theorem stem_ties_counterexample: "stem ''ties'' \<noteq> Some ''ti''"
  by code_simp

text \<open>
  Claim C5, as the code has it. Step 1ab turns \<open>agreed\<close> into \<open>agree\<close>, and step 5
  then drops the final \<open>e\<close>: \<open>stem("agreed")\<close> is \<open>"agre"\<close>.
\<close>

theorem stem_agreed:
  "step1ab ''agreed'' = Some ''agree'' \<and> stem ''agreed'' = Some ''agre''"
  by code_simp

theorem stem_agreed_counterexample: "stem ''agreed'' \<noteq> Some ''agree''"
  by code_simp

section \<open>Suffixes, negative indices and the pool\<close>

lemma endswith_iff: "endswith w s \<longleftrightarrow> (\<exists>p. w = p @ s)"
proof
  assume "endswith w s"
  then have "w = take (length w - length s) w @ s"
    by (metis append_take_drop_id endswith_def)
  then show "\<exists>p. w = p @ s" ..
next
  assume "\<exists>p. w = p @ s"
  then show "endswith w s" by (auto simp: endswith_def)
qed

lemma endswith_length: "endswith w s \<Longrightarrow> length s \<le> length w"
  by (simp add: endswith_def)

lemma endswith_append: "length s \<le> length t \<Longrightarrow> endswith (p @ t) s = endswith t s"
  by (auto simp: endswith_def)

lemma at_m1: "w \<noteq> [] \<Longrightarrow> at w (- 1) = Some (last w)"
  by (cases w rule: rev_cases) (auto simp: at_def nth_append)

lemma at_m2: "2 \<le> length w \<Longrightarrow> at w (- 2) = Some (w ! (length w - 2))"
  by (auto simp: at_def nat_diff_distrib)

lemma at_m2_app: "at (p @ [c, d]) (- 2) = Some c"
  by (simp add: at_m2 nth_append)

lemma pool_eq:
  "pool = map_of
     [(''sky'', ''sky''), (''skies'', ''sky''), (''dying'', ''die''), (''lying'', ''lie''),
      (''tying'', ''tie''), (''news'', ''news''), (''innings'', ''inning''),
      (''inning'', ''inning''), (''outings'', ''outing''), (''outing'', ''outing''),
      (''cannings'', ''canning''), (''canning'', ''canning''), (''howe'', ''howe''),
      (''proceed'', ''proceed''), (''exceed'', ''exceed''), (''succeed'', ''succeed'')]"
  by (rule ext) (simp add: pool_def irregular_forms_def)

lemma pool_length: "pool w = Some s \<Longrightarrow> 3 \<le> length w \<and> length s \<le> length w"
  by (auto simp: pool_eq split: if_splits)

lemma pool_short: "length w \<le> 2 \<Longrightarrow> pool w = None"
  using pool_length [of w] by (cases "pool w") auto

text \<open>
  Claim C2. The pool built by the constructor is the map with exactly the sixteen
  entries of the specification, and for every word that is a key of the pool
  \<open>stem\<close> returns the mapped stem: the lookup comes first and returns at once, so
  no step of the pipeline runs.
\<close>

theorem stem_pool:
  "pool = map_of
     [(''sky'', ''sky''), (''skies'', ''sky''), (''dying'', ''die''), (''lying'', ''lie''),
      (''tying'', ''tie''), (''news'', ''news''), (''innings'', ''inning''),
      (''inning'', ''inning''), (''outings'', ''outing''), (''outing'', ''outing''),
      (''cannings'', ''canning''), (''canning'', ''canning''), (''howe'', ''howe''),
      (''proceed'', ''proceed''), (''exceed'', ''exceed''), (''succeed'', ''succeed'')]
   \<and> (\<forall>w s. pool w = Some s \<longrightarrow> stem w = Some s)"
proof (intro conjI allI impI)
  fix w s
  assume "pool w = Some s"
  then show "stem w = Some s" by (simp add: stem_def stem_word_def)
qed (rule pool_eq)

theorem stem_pool_witness:
  "pool ''skies'' = Some ''sky'' \<and> stem ''skies'' = Some ''sky''"
proof -
  have h: "pool ''skies'' = Some ''sky''" by (simp add: pool_eq)
  with stem_pool show ?thesis by blast
qed

text \<open>
  Claim C3. A word of at most two characters, the empty word included, is returned
  as it is: no key of the pool is that short, and the length guard returns before
  step 1ab, so neither the classifier nor any indexing runs on it.
\<close>

theorem stem_short: "length w \<le> 2 \<Longrightarrow> stem w = Some w"
  by (simp add: stem_def stem_word_def pool_short)

theorem stem_short_witness:
  "length '''' \<le> 2 \<and> stem '''' = Some '''' \<and> length ''is'' \<le> 2 \<and> stem ''is'' = Some ''is''"
  using stem_short [of "''''"] stem_short [of "''is''"] by simp

section \<open>Step 2 on \<open>alli\<close>\<close>

text \<open>
  Claim C6, as the code has it. For a word ending in \<open>alli\<close> whose prefix before that
  suffix has a measure above 0, step 2 drops the last two characters, which leaves a
  word ending in \<open>al\<close>, and its result is that of step 2 on the shortened word.
\<close>

theorem step2_alli:
  assumes "endswith w ''alli''" and "m w (len w - 5) = Some a" and "a > 0"
  shows "step2 w = step2 (chop 2 w) \<and> endswith (chop 2 w) ''al''"
proof -
  from assms(1) obtain p where w: "w = p @ ''alli''" by (auto simp: endswith_iff)
  have c: "chop 2 w = p @ ''al''" by (simp add: w chop_def)
  have a2: "at w (- 2) = Some CHR ''l''" using at_m2_app [of "p @ ''al''"] by (simp add: w)
  have nb: "\<not> endswith w ''bli''" by (simp add: w endswith_append) (simp add: endswith_def)
  have "step2 w = step2 (chop 2 w)"
    using assms a2 nb by (subst step2.simps) (simp add: w)
  moreover have "endswith (chop 2 w) ''al''"
    by (simp add: c endswith_append) (simp add: endswith_def)
  ultimately show ?thesis ..
qed

theorem step2_alli_witness:
  "endswith ''generalli'' ''alli'' \<and> m ''generalli'' (len ''generalli'' - 5) = Some 2 \<and> (2::int) > 0
   \<and> step2 ''generalli'' = step2 (chop 2 ''generalli'') \<and> chop 2 ''generalli'' = ''general''"
proof -
  have h1: "endswith ''generalli'' ''alli''" by code_simp
  have h2: "m ''generalli'' (len ''generalli'' - 5) = Some 2" by code_simp
  have h3: "chop 2 ''generalli'' = ''general''" by code_simp
  from step2_alli [OF h1 h2] h1 h2 h3 show ?thesis by simp
qed

text \<open>
  The claim as the specification states it has the shortened word end in \<open>all\<close>.
  On \<open>generalli\<close> the shortened word is \<open>general\<close>, and step 2 on \<open>generall\<close>
  gives another result.
\<close>

theorem step2_alli_counterexample:
  "endswith ''generalli'' ''alli'' \<and> m ''generalli'' (len ''generalli'' - 5) = Some 2
   \<and> step2 ''generalli'' = Some ''general'' \<and> \<not> endswith ''general'' ''all''
   \<and> step2 ''generalli'' \<noteq> step2 ''generall''"
  by code_simp

section \<open>The measure\<close>

lemma upt_step:
  assumes "1 \<le> i" and "i \<le> j"
  shows "[nat (i - 1)..<nat j] = nat (i - 1) # [nat i..<nat j]"
proof -
  from assms have "nat (i - 1) < nat j" and "Suc (nat (i - 1)) = nat i" by simp_all
  then show ?thesis by (simp add: upt_conv_Cons)
qed

lemma vc_at_int: "1 \<le> i \<Longrightarrow> vc_at w (nat (i - 1)) = (cons w (i - 1) = Some False \<and> cons w i = Some True)"
  by (simp add: vc_at_def)

text \<open>
  The three loops share one invariant: started at index \<open>i\<close> with the counter at
  \<open>n\<close>, a loop returns \<open>n\<close> plus the number of VC boundaries from position
  \<open>i - 1\<close> on. What differs is what each loop knows of position \<open>i - 1\<close>.
\<close>

lemma m_loops:
  "0 \<le> i \<Longrightarrow> j < len w \<Longrightarrow> i = 0 \<or> cons w (i - 1) = Some True \<Longrightarrow>
     m_lead w j i n = Some (n + int (length (filter (vc_at w) [nat (i - 1)..<nat j])))"
  "1 \<le> i \<Longrightarrow> j < len w \<Longrightarrow> cons w (i - 1) = Some False \<Longrightarrow>
     m_vow w j i n = Some (n + int (length (filter (vc_at w) [nat (i - 1)..<nat j])))"
  "1 \<le> i \<Longrightarrow> j < len w \<Longrightarrow> cons w (i - 1) = Some True \<Longrightarrow>
     m_con w j i n = Some (n + int (length (filter (vc_at w) [nat (i - 1)..<nat j])))"
proof (induction w j i n and w j i n and w j i n rule: m_lead_m_vow_m_con.induct)
  case (1 word j i n)
  show ?case
  proof (cases "i > j")
    case True
    then show ?thesis by (subst m_lead.simps) simp
  next
    case False
    with "1.prems" obtain c where c: "cons word i = Some c"
      using cons_total [of i word] by auto
    show ?thesis
    proof (cases "i = 0")
      case True
      with False c "1.IH" [of c] "1.prems" show ?thesis
        by (subst m_lead.simps) (cases c; simp)
    next
      case nz: False
      with "1.prems" have p: "cons word (i - 1) = Some True" and i1: "1 \<le> i" by auto
      from False i1 have u: "[nat (i - 1)..<nat j] = nat (i - 1) # [nat i..<nat j]"
        by (simp add: upt_step)
      from False c "1.IH" [of c] "1.prems" p i1 show ?thesis
        by (subst m_lead.simps) (cases c; simp add: u vc_at_int)
    qed
  qed
next
  case (2 word j i n)
  show ?case
  proof (cases "i > j")
    case True
    then show ?thesis by (subst m_vow.simps) simp
  next
    case False
    with "2.prems" obtain c where c: "cons word i = Some c"
      using cons_total [of i word] by auto
    from False "2.prems" have u: "[nat (i - 1)..<nat j] = nat (i - 1) # [nat i..<nat j]"
      by (simp add: upt_step)
    from False c "2.IH" [of c] "2.prems" show ?thesis
      by (subst m_vow.simps) (cases c; simp add: u vc_at_int)
  qed
next
  case (3 word j i n)
  show ?case
  proof (cases "i > j")
    case True
    then show ?thesis by (subst m_con.simps) simp
  next
    case False
    with "3.prems" obtain c where c: "cons word i = Some c"
      using cons_total [of i word] by auto
    from False "3.prems" have u: "[nat (i - 1)..<nat j] = nat (i - 1) # [nat i..<nat j]"
      by (simp add: upt_step)
    from False c "3.IH" [of c] "3.prems" show ?thesis
      by (subst m_con.simps) (cases c; simp add: u vc_at_int)
  qed
qed

lemma m_eq: "j < len w \<Longrightarrow> m w j = Some (int (vc_boundaries w (nat j)))"
  using m_loops(1) [of 0 j w 0] by (simp add: m_def vc_boundaries_def)

lemma m_total: "j < len w \<Longrightarrow> \<exists>a. m w j = Some a \<and> 0 \<le> a \<and> (0 < a \<longrightarrow> 1 \<le> j)"
proof -
  assume "j < len w"
  then have "m w j = Some (int (vc_boundaries w (nat j)))" by (rule m_eq)
  moreover have "vc_boundaries w (nat j) \<le> nat j"
    using length_filter_le [of "vc_at w" "[0..<nat j]"] by (simp add: vc_boundaries_def)
  ultimately show ?thesis by auto
qed

subsection \<open>The runs of a prefix\<close>

text \<open>
  Merging equal neighbours in the classes of \<open>word[0..j]\<close> leaves the sequence of its
  runs. That sequence is \<open>[C](VC)^a[V]\<close> with \<open>a\<close> the number of VC boundaries, and
  the sequence fixes \<open>a\<close>.
\<close>

lemma classes_Suc: "classes w (Suc j) = classes w j @ [cons w (int (Suc j))]"
  by (simp add: classes_def)

lemma classes_last: "last (classes w j) = cons w (int j)"
  by (simp add: classes_def)

lemma concat_replicate_snoc: "concat (replicate a x) @ x = concat (replicate (Suc a) x)"
  by (induction a) simp_all

lemma remdups_adj_snoc:
  "xs \<noteq> [] \<Longrightarrow> remdups_adj (xs @ [y]) = remdups_adj xs @ (if last xs = y then [] else [y])"
  by (cases xs rule: rev_cases) (simp_all add: remdups_adj_append_two)

lemma canonical_snoc_C: "canonical c a True @ [Some True] = canonical c (Suc a) False"
  using concat_replicate_snoc [of a "[Some False, Some True]"] by (simp add: canonical_def)

lemma canonical_snoc_V: "canonical c a False @ [Some False] = canonical c a True"
  by (simp add: canonical_def)

lemma runs_canonical:
  "j < length w \<Longrightarrow>
     remdups_adj (classes w j) =
       canonical (cons w 0 = Some True) (vc_boundaries w j) (cons w (int j) = Some False)"
proof (induction j)
  case 0
  then obtain b where "cons w 0 = Some b" using cons_total_nat [of 0 w] by auto
  then show ?case by (cases b) (simp_all add: classes_def canonical_def vc_boundaries_def)
next
  case (Suc j)
  then obtain b where b: "cons w (int j) = Some b" using cons_total_nat [of j w] by auto
  from Suc.prems obtain c where c: "cons w (int (Suc j)) = Some c"
    using cons_total_nat [of "Suc j" w] by auto
  from Suc have IH: "remdups_adj (classes w j) =
       canonical (cons w 0 = Some True) (vc_boundaries w j) (cons w (int j) = Some False)"
    by simp
  have ne: "classes w j \<noteq> []" by (simp add: classes_def)
  have v: "vc_boundaries w (Suc j) = vc_boundaries w j + (if \<not> b \<and> c then 1 else 0)"
    using b c by (simp add: vc_boundaries_def vc_at_def add.commute)
  have r: "remdups_adj (classes w (Suc j)) =
      (if b = c then remdups_adj (classes w j) else remdups_adj (classes w j) @ [Some c])"
    using ne b c classes_last [of w j]
    by (auto simp: classes_Suc remdups_adj_snoc)
  show ?case
    using b c by (cases b; cases c) (simp_all add: r v IH canonical_snoc_C canonical_snoc_V)
qed

lemma count_C:
  "length (filter (\<lambda>x. x = Some True) (canonical c a v)) = (if c then 1 else 0) + a"
  by (induction a) (simp_all add: canonical_def)

lemma count_V:
  "length (filter (\<lambda>x. x = Some False) (canonical c a v)) = a + (if v then 1 else 0)"
  by (induction a) (simp_all add: canonical_def)

lemma canonical_hd: "c \<longleftrightarrow> canonical c a v \<noteq> [] \<and> hd (canonical c a v) = Some True"
  by (cases a) (simp_all add: canonical_def)

lemma canonical_inj:
  assumes "canonical c a v = canonical c' a' v'"
  shows "c = c' \<and> a = a' \<and> v = v'"
proof -
  from assms have c: "c = c'" using canonical_hd [of c a v] canonical_hd [of c' a' v'] by simp
  from assms have "(if c then 1 else 0) + a = (if c' then 1 else 0) + a'"
    using count_C [of c a v] count_C [of c' a' v'] by simp
  with c have a: "a = a'" by simp
  from assms have "a + (if v then 1 else 0) = a' + (if v' then 1 else (0::nat))"
    using count_V [of c a v] count_V [of c' a' v'] by simp
  with a have "v = v'" by (simp split: if_splits)
  with c a show ?thesis by simp
qed

text \<open>
  Claim C7. For an index \<open>j\<close> inside the word, \<open>m\<close> returns a value, the value is
  not negative, it is the number of VC boundaries of the prefix \<open>word[0..j]\<close>, and
  the runs of that prefix are \<open>[C](VC)^a[V]\<close> with the returned value as \<open>a\<close>.
\<close>

theorem m_counts:
  assumes "0 \<le> j" and "j < len w"
  shows "\<exists>a. m w j = Some a \<and> 0 \<le> a \<and> a = int (vc_boundaries w (nat j))
           \<and> remdups_adj (classes w (nat j)) =
               canonical (cons w 0 = Some True) (nat a) (cons w j = Some False)"
proof -
  from assms have "nat j < length w" by simp
  from runs_canonical [OF this] assms m_eq [OF assms(2)] show ?thesis by simp
qed

theorem m_counts_witness:
  "(0::int) \<le> 4 \<and> 4 < len ''agree'' \<and> m ''agree'' 4 = Some 1 \<and> vc_boundaries ''agree'' (nat 4) = 1
   \<and> remdups_adj (classes ''agree'' (nat 4)) = [Some False, Some True, Some False]
   \<and> canonical (cons ''agree'' 0 = Some True) (nat 1) (cons ''agree'' 4 = Some False)
       = [Some False, Some True, Some False]"
proof -
  have h: "(0::int) \<le> 4" "4 < len ''agree''" by simp_all
  have v: "vc_boundaries ''agree'' (nat 4) = 1"
    "remdups_adj (classes ''agree'' (nat 4)) = [Some False, Some True, Some False]"
    by code_simp+
  from m_counts [OF h] h v show ?thesis by simp
qed

section \<open>Every step returns a word, and none that is longer\<close>

lemma shrinks_Some [simp]: "shrinks w (Some x) = (x \<noteq> [] \<and> length x \<le> length w)"
  by (simp add: shrinks_def)

lemma shrinks_bind:
  assumes "shrinks w r" and "\<And>x. x \<noteq> [] \<Longrightarrow> length x \<le> length w \<Longrightarrow> shrinks x (f x)"
  shows "shrinks w (r \<bind> f)"
proof -
  from assms(1) obtain x where r: "r = Some x" and x: "x \<noteq> []" "length x \<le> length w"
    by (auto simp: shrinks_def split: option.splits)
  from assms(2) [OF x] x(2) show ?thesis
    by (auto simp: r shrinks_def split: option.splits)
qed

lemma shrinks_if:
  "(c \<Longrightarrow> shrinks w a) \<Longrightarrow> (\<not> c \<Longrightarrow> shrinks w b) \<Longrightarrow> shrinks w (if c then a else b)"
  by simp

lemma shrinks_mono: "shrinks v r \<Longrightarrow> length v \<le> length w \<Longrightarrow> shrinks w r"
  by (auto simp: shrinks_def split: option.splits)

lemma gated_shrinks:
  assumes "j < len w" and "\<And>a. 0 \<le> a \<Longrightarrow> P a \<Longrightarrow> 0 < a" and "w \<noteq> []"
    and "1 \<le> j \<Longrightarrow> r \<noteq> [] \<and> length r \<le> length w"
  shows "shrinks w (gated P w j r)"
proof -
  from m_total [OF assms(1)] obtain a where a: "m w j = Some a" "0 \<le> a" "0 < a \<longrightarrow> 1 \<le> j"
    by auto
  show ?thesis
  proof (cases "P a")
    case True
    with assms(2) a have "1 \<le> j" by auto
    with assms(4) True a show ?thesis by (simp add: gated_def)
  next
    case False
    with a assms(3) show ?thesis by (simp add: gated_def)
  qed
qed

lemma rec_shrinks:
  assumes "j < len w" and "w \<noteq> []" and "1 \<le> j \<Longrightarrow> shrinks w r"
  shows "shrinks w (m w j \<bind> (\<lambda>a. if a > 0 then r else Some w))"
proof -
  from m_total [OF assms(1)] obtain a where a: "m w j = Some a" "0 < a \<longrightarrow> 1 \<le> j" by auto
  with assms(2,3) show ?thesis by (cases "a > 0") simp_all
qed

lemma cvc_total: "0 \<le> i \<Longrightarrow> i < len w \<Longrightarrow> \<exists>b. cvc w i = Some b"
proof -
  assume i: "0 \<le> i" "i < len w"
  consider "i = 0" | "i = 1" | "2 \<le> i" using i by linarith
  then show ?thesis
  proof cases
    case 1
    then show ?thesis by (auto simp: cvc_def)
  next
    case 2
    with i have l: "(0::int) < len w" "(1::int) < len w" by linarith+
    from cons_total [OF _ l(1)] obtain a where "cons w 0 = Some a" by auto
    moreover from cons_total [OF _ l(2)] obtain b where "cons w 1 = Some b" by auto
    ultimately show ?thesis using 2 by (auto simp: cvc_def)
  next
    case 3
    with i have l: "0 \<le> i - 1" "i - 1 < len w" "0 \<le> i - 2" "i - 2 < len w" by linarith+
    from cons_total [OF i] obtain a where "cons w i = Some a" by auto
    moreover from cons_total [OF l(1,2)] obtain b where "cons w (i - 1) = Some b" by auto
    moreover from cons_total [OF l(3,4)] obtain c where "cons w (i - 2) = Some c" by auto
    ultimately show ?thesis using 3 i by (auto simp: cvc_def at_nonneg)
  qed
qed

lemma vowelinstem_loop_total:
  "\<forall>i \<in> set ks. i < length s \<Longrightarrow> \<exists>b. vowelinstem_loop s ks = Some b"
proof (induction ks)
  case Nil
  then show ?case by auto
next
  case (Cons k ks)
  then obtain c where "cons s (int k) = Some c" using cons_total_nat [of k s] by auto
  with Cons show ?case by auto
qed

lemma vowelinstem_total: "\<exists>b. vowelinstem s = Some b"
  by (simp add: vowelinstem_def vowelinstem_loop_total)

lemma vowelinstem_True: "vowelinstem s = Some True \<Longrightarrow> s \<noteq> []"
  by (auto simp: vowelinstem_def)

lemma doublec_total: "\<exists>b. doublec w = Some b"
proof (cases "length w < 2")
  case True
  then show ?thesis by (auto simp: doublec_def)
next
  case False
  then have l: "w \<noteq> []" "2 \<le> length w" by auto
  from l have "0 \<le> len w - 1" "len w - 1 < len w" by simp_all
  from cons_total [OF this] obtain b where "cons w (len w - 1) = Some b" by auto
  with False l show ?thesis by (auto simp: doublec_def at_m1 at_m2)
qed

lemma doublec_True: "doublec w = Some True \<Longrightarrow> 2 \<le> length w"
  by (auto simp: doublec_def split: if_splits)

subsection \<open>Step 1\<close>

lemma step1ab_plural_shrinks: "3 \<le> length w \<Longrightarrow> shrinks w (step1ab_plural w)"
proof -
  assume l: "3 \<le> length w"
  then have "w \<noteq> []" and "2 \<le> length w" by auto
  with l show ?thesis by (auto simp: step1ab_plural_def at_m1 at_m2 chop_def)
qed

lemma step1ab_ed_ing_ok:
  assumes "w \<noteq> []"
  shows "\<exists>x t. step1ab_ed_ing w = Some (x, t) \<and> x \<noteq> [] \<and> length x \<le> length w
           \<and> (t \<longrightarrow> length x + 2 \<le> length w)"
proof -
  obtain a where a: "m w (len w - 4) = Some a" "0 < a \<longrightarrow> 1 \<le> len w - 4"
    using m_total [of "len w - 4" w] by auto
  obtain ed where ed: "vowelinstem (chop 2 w) = Some ed" using vowelinstem_total by blast
  obtain ing where ing: "vowelinstem (chop 3 w) = Some ing" using vowelinstem_total by blast
  have e2: "chop 2 w \<noteq> []" if "ed" using that ed by (auto dest: vowelinstem_True)
  have e3: "chop 3 w \<noteq> []" if "ing" using that ing by (auto dest: vowelinstem_True)
  have l2: "length (chop 2 w) + 2 \<le> length w" if "endswith w ''ed''"
    using endswith_length [OF that] by (simp add: chop_def)
  have l3: "length (chop 3 w) + 2 \<le> length w" if "endswith w ''ing''"
    using endswith_length [OF that] by (simp add: chop_def)
  show ?thesis
  proof (cases "endswith w ''ied''")
    case True
    then have "3 \<le> length w" by (auto dest: endswith_length)
    then have "chop 1 w \<noteq> []" "chop 2 w \<noteq> []" by (auto simp: chop_def)
    moreover have "step1ab_ed_ing w = Some (if length w = 4 then chop 1 w else chop 2 w, False)"
      using True by (simp add: step1ab_ed_ing_def)
    ultimately show ?thesis by (auto simp: chop_def)
  next
    case nied: False
    show ?thesis
    proof (cases "endswith w ''eed''")
      case True
      have "step1ab_ed_ing w = Some (if a > 0 then chop 1 w else w, False)"
        using nied True a by (simp add: step1ab_ed_ing_def)
      moreover have "chop 1 w \<noteq> []" if "a > 0" using that a by (auto simp: chop_def)
      ultimately show ?thesis using assms by (auto simp: chop_def)
    next
      case need: False
      show ?thesis
      proof (cases "endswith w ''ed'' \<and> ed")
        case True
        have "step1ab_ed_ing w = Some (chop 2 w, True)"
          using nied need True ed by (simp add: step1ab_ed_ing_def)
        with True e2 l2 show ?thesis by auto
      next
        case ned: False
        have r: "step1ab_ed_ing w =
            (if endswith w ''ing'' \<and> ing then Some (chop 3 w, True) else Some (w, False))"
          using nied need ned ed ing by (auto simp: step1ab_ed_ing_def)
        show ?thesis
        proof (cases "endswith w ''ing'' \<and> ing")
          case True
          with r e3 l3 show ?thesis by auto
        next
          case False
          with r assms show ?thesis by auto
        qed
      qed
    qed
  qed
qed

lemma step1ab_restore_ok:
  assumes "w \<noteq> []"
  shows "\<exists>x. step1ab_restore w = Some x \<and> x \<noteq> [] \<and> (length x \<le> length w \<or> x = w @ ''e'')"
proof -
  obtain d where d: "doublec w = Some d" using doublec_total by blast
  from assms obtain a where a: "m w (len w - 1) = Some a"
    using m_total [of "len w - 1" w] by auto
  from assms obtain c where c: "cvc w (len w - 1) = Some c"
    using cvc_total [of "len w - 1" w] by auto
  have "2 \<le> length w" if "d" using that d by (auto dest: doublec_True)
  with assms d a c show ?thesis
    by (auto simp: step1ab_restore_def at_m1 chop_def)
qed

lemma step1ab_shrinks: "3 \<le> length w \<Longrightarrow> shrinks w (step1ab w)"
proof -
  assume "3 \<le> length w"
  then have "shrinks w (step1ab_plural w)" by (rule step1ab_plural_shrinks)
  then obtain p where p: "step1ab_plural w = Some p" "p \<noteq> []" "length p \<le> length w"
    by (auto simp: shrinks_def split: option.splits)
  from step1ab_ed_ing_ok [OF p(2)] obtain x t where
    x: "step1ab_ed_ing p = Some (x, t)" "x \<noteq> []" "length x \<le> length p"
       "t \<longrightarrow> length x + 2 \<le> length p" by blast
  from step1ab_restore_ok [OF x(2)] obtain y where
    y: "step1ab_restore x = Some y" "y \<noteq> []" "length y \<le> length x \<or> y = x @ ''e''" by blast
  from p x y show ?thesis by (cases t) (auto simp: step1ab_def)
qed

lemma step1c_shrinks: "w \<noteq> [] \<Longrightarrow> shrinks w (step1c w)"
proof (cases "2 < length w")
  case True
  then obtain k where "cons w (len w - 2) = Some k"
    using cons_total [of "len w - 2" w] by auto
  moreover assume "w \<noteq> []"
  ultimately show ?thesis using True by (simp add: step1c_def at_m1 chop_def)
next
  case False
  moreover assume "w \<noteq> []"
  ultimately show ?thesis by (simp add: step1c_def at_m1)
qed

subsection \<open>Steps 2 to 5\<close>

lemma step2_shrinks: "w \<noteq> [] \<Longrightarrow> shrinks w (step2 w)"
proof (induction "length w" arbitrary: w rule: less_induct)
  case less
  have rec: "shrinks w (step2 (chop 2 w))" if "1 \<le> len w - 5"
  proof -
    from that have "length (chop 2 w) < length w" and "chop 2 w \<noteq> []"
      by (auto simp: chop_def)
    then have "shrinks (chop 2 w) (step2 (chop 2 w))" by (rule less.hyps)
    then show ?thesis by (rule shrinks_mono) (simp add: chop_def)
  qed
  from less.prems show ?case
    apply (subst step2.simps)
    apply (rule shrinks_if)
     apply simp
    apply (simp add: at_m2 split del: if_split)
    apply (intro shrinks_if gated_shrinks rec_shrinks rec)
    apply (simp_all add: chop_def)
    done
qed

lemma step3_shrinks: "w \<noteq> [] \<Longrightarrow> shrinks w (step3 w)"
  unfolding step3_def
  apply (simp add: at_m1 split del: if_split)
  apply (intro shrinks_if gated_shrinks)
  apply (simp_all add: chop_def)
  done

lemma step4_shrinks: "w \<noteq> [] \<Longrightarrow> shrinks w (step4 w)"
  unfolding step4_def
  apply (rule shrinks_if)
   apply simp
  apply (simp add: at_m2 split del: if_split)
  apply (intro shrinks_if gated_shrinks)
  apply (simp_all add: chop_def)
  done

lemma step5_e_shrinks: "w \<noteq> [] \<Longrightarrow> shrinks w (step5_e w)"
proof -
  assume w: "w \<noteq> []"
  then obtain a where a: "m w (len w - 1) = Some a" "0 < a \<longrightarrow> 1 \<le> len w - 1"
    using m_total [of "len w - 1" w] by auto
  show ?thesis
  proof (cases "a = 1")
    case True
    with a obtain k where "cvc w (len w - 2) = Some k"
      using cvc_total [of "len w - 2" w] by auto
    with w a True show ?thesis by (simp add: step5_e_def at_m1 chop_def)
  next
    case False
    with w a show ?thesis by (auto simp: step5_e_def at_m1 chop_def)
  qed
qed

lemma step5_ll_shrinks: "w \<noteq> [] \<Longrightarrow> shrinks w (step5_ll w)"
proof -
  assume w: "w \<noteq> []"
  then obtain a where a: "m w (len w - 1) = Some a" "0 < a \<longrightarrow> 1 \<le> len w - 1"
    using m_total [of "len w - 1" w] by auto
  with w show ?thesis by (auto simp: step5_ll_def chop_def)
qed

lemma step5_shrinks: "w \<noteq> [] \<Longrightarrow> shrinks w (step5 w)"
  unfolding step5_def by (rule shrinks_bind) (simp_all add: step5_e_shrinks step5_ll_shrinks)

subsection \<open>The engine\<close>

lemma stem_shrinks: "3 \<le> length w \<Longrightarrow> pool w = None \<Longrightarrow> shrinks w (stem w)"
  unfolding stem_def stem_word_def
  apply simp
  apply (intro shrinks_bind step1ab_shrinks step1c_shrinks step2_shrinks step3_shrinks
      step4_shrinks step5_shrinks)
  apply simp_all
  done

lemma stem_total: "\<exists>s. stem w = Some s \<and> length s \<le> length w"
proof (cases "pool w")
  case (Some s)
  then show ?thesis using pool_length [of w s] by (simp add: stem_def stem_word_def)
next
  case None
  show ?thesis
  proof (cases "3 \<le> length w")
    case True
    with None have "shrinks w (stem w)" by (simp add: stem_shrinks)
    then show ?thesis by (auto simp: shrinks_def split: option.splits)
  next
    case False
    with None show ?thesis by (simp add: stem_def stem_word_def)
  qed
qed

subsection \<open>The steps on any word\<close>

lemma step1ab_plural_le: "step1ab_plural w = Some x \<Longrightarrow> length x \<le> length w"
  by (auto simp: step1ab_plural_def chop_def split: if_splits bind_splits)

lemma step1ab_ed_ing_le: "step1ab_ed_ing w = Some (x, t) \<Longrightarrow> length x \<le> length w"
proof (cases "w = []")
  case True
  moreover assume "step1ab_ed_ing w = Some (x, t)"
  ultimately show ?thesis
    by (auto simp: step1ab_ed_ing_def endswith_def chop_def split: if_splits bind_splits)
next
  case False
  moreover assume "step1ab_ed_ing w = Some (x, t)"
  ultimately show ?thesis using step1ab_ed_ing_ok [of w] by auto
qed

lemma step1ab_restore_le:
  "step1ab_restore w = Some x \<Longrightarrow> length x \<le> length w \<or> x = w @ ''e''"
proof (cases "w = []")
  case True
  moreover assume "step1ab_restore w = Some x"
  ultimately show ?thesis
    by (auto simp: step1ab_restore_def endswith_def doublec_def chop_def
        split: if_splits bind_splits)
next
  case False
  moreover assume "step1ab_restore w = Some x"
  ultimately show ?thesis using step1ab_restore_ok [of w] by auto
qed

lemma le_from_shrinks:
  assumes "w \<noteq> [] \<Longrightarrow> shrinks w (f w)" and "w = [] \<Longrightarrow> f w = Some x \<Longrightarrow> x = []"
    and "f w = Some x"
  shows "length x \<le> length w"
proof (cases "w = []")
  case True
  with assms(2,3) show ?thesis by simp
next
  case False
  with assms(1,3) show ?thesis by (simp add: shrinks_def)
qed

lemma step1c_le:
  assumes "step1c w = Some x"
  shows "length x \<le> length w"
proof (rule le_from_shrinks [where f = step1c, OF _ _ assms])
  show "shrinks w (step1c w)" if "w \<noteq> []" using that by (rule step1c_shrinks)
  show "x = []" if "w = []" "step1c w = Some x"
    using that by (simp add: step1c_def at_def)
qed

lemma step2_le:
  assumes "step2 w = Some x"
  shows "length x \<le> length w"
proof (rule le_from_shrinks [where f = step2, OF _ _ assms])
  show "shrinks w (step2 w)" if "w \<noteq> []" using that by (rule step2_shrinks)
  show "x = []" if "w = []" "step2 w = Some x"
    using that by (subst (asm) step2.simps) simp
qed

lemma step3_le:
  assumes "step3 w = Some x"
  shows "length x \<le> length w"
proof (rule le_from_shrinks [where f = step3, OF _ _ assms])
  show "shrinks w (step3 w)" if "w \<noteq> []" using that by (rule step3_shrinks)
  show "x = []" if "w = []" "step3 w = Some x"
    using that by (simp add: step3_def at_def)
qed

lemma step4_le:
  assumes "step4 w = Some x"
  shows "length x \<le> length w"
proof (rule le_from_shrinks [where f = step4, OF _ _ assms])
  show "shrinks w (step4 w)" if "w \<noteq> []" using that by (rule step4_shrinks)
  show "x = []" if "w = []" "step4 w = Some x"
    using that by (simp add: step4_def)
qed

lemma step5_le:
  assumes "step5 w = Some x"
  shows "length x \<le> length w"
proof (rule le_from_shrinks [where f = step5, OF _ _ assms])
  show "shrinks w (step5 w)" if "w \<noteq> []" using that by (rule step5_shrinks)
  show "x = []" if "w = []" "step5 w = Some x"
    using that by (simp add: step5_def step5_e_def at_def)
qed

section \<open>Length bounds\<close>

text \<open>
  Claim C8. For every word \<open>stem\<close> returns a stem at most one character longer
  than the word. Of the blocks and steps of the pipeline only the third block of
  step 1ab can return a longer word than it was given, and then it returns that
  word with one \<open>e\<close> appended.
\<close>

theorem stem_length_bound:
  "(\<exists>s. stem w = Some s \<and> length s \<le> length w + 1)
   \<and> (\<forall>x. step1ab_plural w = Some x \<longrightarrow> length x \<le> length w)
   \<and> (\<forall>x t. step1ab_ed_ing w = Some (x, t) \<longrightarrow> length x \<le> length w)
   \<and> (\<forall>x. step1ab_restore w = Some x \<longrightarrow> length x \<le> length w \<or> x = w @ ''e'')
   \<and> (\<forall>x. step1c w = Some x \<longrightarrow> length x \<le> length w)
   \<and> (\<forall>x. step2 w = Some x \<longrightarrow> length x \<le> length w)
   \<and> (\<forall>x. step3 w = Some x \<longrightarrow> length x \<le> length w)
   \<and> (\<forall>x. step4 w = Some x \<longrightarrow> length x \<le> length w)
   \<and> (\<forall>x. step5 w = Some x \<longrightarrow> length x \<le> length w)"
proof -
  from stem_total [of w] have "\<exists>s. stem w = Some s \<and> length s \<le> length w + 1" by auto
  then show ?thesis
    by (simp add: step1ab_plural_le step1ab_ed_ing_le step1ab_restore_le step1c_le step2_le
        step3_le step4_le step5_le)
qed

theorem stem_length_bound_witness:
  "stem ''hop'' = Some ''hop'' \<and> length ''hop'' \<le> length ''hop'' + 1
   \<and> step1ab_plural ''hop'' = Some ''hop''
   \<and> step1ab_ed_ing ''hop'' = Some (''hop'', False)
   \<and> step1ab_restore ''hop'' = Some ''hope'' \<and> ''hope'' = ''hop'' @ ''e''
   \<and> step1c ''hop'' = Some ''hop'' \<and> step2 ''hop'' = Some ''hop''
   \<and> step3 ''hop'' = Some ''hop'' \<and> step4 ''hop'' = Some ''hop''
   \<and> step5 ''hop'' = Some ''hop''"
proof -
  have e: "stem ''hop'' = Some ''hop''" "step1ab_plural ''hop'' = Some ''hop''"
    "step1ab_ed_ing ''hop'' = Some (''hop'', False)" "step1ab_restore ''hop'' = Some ''hope''"
    "step1c ''hop'' = Some ''hop''" "step2 ''hop'' = Some ''hop''"
    "step3 ''hop'' = Some ''hop''" "step4 ''hop'' = Some ''hop''" "step5 ''hop'' = Some ''hop''"
    by code_simp+
  from stem_length_bound [of "''hop''"] e show ?thesis by simp
qed

text \<open>
  Claim C10. For every word \<open>stem\<close> returns a stem that is no longer than the
  word: the \<open>e\<close> of step 1ab is appended only after \<open>ed\<close> or \<open>ing\<close> was removed.
\<close>

theorem stem_never_longer: "\<exists>s. stem w = Some s \<and> length s \<le> length w"
  by (rule stem_total)

section \<open>The wrapper\<close>

lemma slice_take: "slice p 0 (len w) = take (length w) p"
  by (simp add: slice_def min_def)

lemma stem_word_range: "stem_word p 0 (Some (len w - 1)) = stem (take (length w) p)"
  by (simp add: stem_word_def stem_def slice_take)

text \<open>
  What \<open>fart\<close> does on every token, whatever the lowercasing: it stems the first
  \<open>len(word)\<close> characters of the lowercased token and compares the stem with the
  whole lowercased token.
\<close>

lemma fart_slice:
  "\<exists>s. stem (take (length w) (lw w)) = Some s
     \<and> fart lw w = Some (if s \<noteq> lw w then s @ ''fart'' else w)"
proof -
  from stem_total [of "take (length w) (lw w)"]
  obtain s where "stem (take (length w) (lw w)) = Some s" by blast
  then show ?thesis by (simp add: fart_def stem_word_range)
qed

text \<open>
  Where the lowercased token is no longer than the token, that is the stem of the
  lowercased token, and \<open>fart\<close> is as the specification has it.
\<close>

lemma fart_same_length:
  assumes "length (lw w) \<le> length w"
  shows "\<exists>s. stem (lw w) = Some s
           \<and> fart lw w = Some (if s \<noteq> lw w then s @ ''fart'' else w)"
  using assms fart_slice [of w lw] by simp

text \<open>
  Claim C9, which the code breaks. \<open>fart\<close> is to return the stem of the lowercased
  token followed by \<open>fart\<close> when that stem differs from the lowercased token, and
  the token itself otherwise. Let the token be one character \<open>c\<close> that \<open>lower\<close> turns
  into \<open>i\<close> and a second character, as Python 3 turns U+0130 into \<open>i\<close> and U+0307.
  The lowercased token has two characters and is its own stem, so the claim asks for
  the token; the code stems the first character only and returns \<open>ifart\<close>.
\<close>

theorem fart_dotted_capital:
  assumes "lw [c] = [CHR ''i'', d]"
  shows "stem (lw [c]) = Some (lw [c]) \<and> fart lw [c] = Some ''ifart'' \<and> fart lw [c] \<noteq> Some [c]"
proof -
  have "stem (lw [c]) = Some (lw [c])" by (rule stem_short) (simp add: assms)
  moreover have "stem (take (length [c]) (lw [c])) = Some ''i''"
    by (simp add: assms stem_short)
  then have "fart lw [c] = Some ''ifart''"
    using fart_slice [of "[c]" lw] by (simp add: assms)
  ultimately show ?thesis by simp
qed

theorem fart_dotted_capital_witness:
  "lower_dotted [CHR 0xDD] = [CHR ''i'', CHR 0xCC]
   \<and> stem (lower_dotted [CHR 0xDD]) = Some (lower_dotted [CHR 0xDD])
   \<and> fart lower_dotted [CHR 0xDD] = Some ''ifart''"
proof -
  have h: "lower_dotted [CHR 0xDD] = [CHR ''i'', CHR 0xCC]" by (simp add: lower_dotted_def)
  from fart_dotted_capital [of lower_dotted "CHR 0xDD" "CHR 0xCC", OF h] h show ?thesis by simp
qed

text \<open>
  On a longer token the same cut loses the last letter: with \<open>CHR 0xDD\<close> for U+0130,
  the token \<open>\<dots>stanbul\<close> is lowercased to nine characters, eight of them are stemmed,
  and the result ends in \<open>stanbufart\<close>, while the lowercased token is its own stem.
\<close>

lemma fart_istanbul:
  "stem (lower_dotted (CHR 0xDD # ''stanbul'')) = Some (lower_dotted (CHR 0xDD # ''stanbul''))
   \<and> fart lower_dotted (CHR 0xDD # ''stanbul'') = Some ([CHR ''i'', CHR 0xCC] @ ''stanbufart'')"
  by code_simp

end
